theory Spec2Isabelle
  imports Complex_Main
begin

section \<open>Data model of \<^verbatim>\<open>sdk/threading/thread_pool.h\<close>\<close>

text \<open>
  The enumerations of the header. \<^verbatim>\<open>enum class TaskPriority\<close> gives its members the
  values 0..3, and \<^verbatim>\<open>operator<\<close> on the enum compares these values.
\<close>

datatype TaskPriority = LOW | NORMAL | HIGH | CRITICAL

fun priority_value :: "TaskPriority \<Rightarrow> nat" where
  "priority_value LOW = 0"
| "priority_value NORMAL = 1"
| "priority_value HIGH = 2"
| "priority_value CRITICAL = 3"

datatype TaskStatus = PENDING | RUNNING | COMPLETED | FAILED | CANCELLED

text \<open>
  A \<^verbatim>\<open>system_clock::time_point\<close> is the number of clock ticks since the epoch; a
  default-constructed one is 0. The tick length is implementation defined (a nanosecond
  in libstdc++); no theorem below depends on the value chosen here.
\<close>

type_synonym time_point = int

definition ticks_per_ms :: int where
  "ticks_per_ms = 1000000"

record TaskInfo =
  id_ti :: string
  priority :: TaskPriority
  status :: TaskStatus
  submit_time :: time_point
  start_time :: time_point
  end_time :: time_point
  error_message :: string

text \<open>
  A \<^verbatim>\<open>double\<close> is modelled by \<open>real option\<close>: \<open>Some x\<close> is a double of value \<open>x\<close>, \<open>None\<close> is
  a non-finite value (an infinity or a NaN), which every operation used here propagates.
  The operations on \<open>Some\<close> are exact: rounding is not modelled, so the model gives the
  value the code computes only where the code's arithmetic is exact, as it is on the small
  whole numbers of the schedules evaluated below. Nothing is proved about the arithmetic
  beyond such evaluations.
\<close>

type_synonym double = "real option"

record ThreadPoolStats =
  thread_count :: nat
  active_threads_st :: nat
  pending_tasks :: nat
  completed_tasks :: nat
  failed_tasks :: nat
  average_task_duration_ms :: double
  start_time_st :: time_point

text \<open>
  What a call can do besides returning: \<^verbatim>\<open>catch (const std::exception& e)\<close> sees the
  text \<^verbatim>\<open>e.what()\<close>, \<^verbatim>\<open>catch (...)\<close> sees nothing.
\<close>

datatype thrown = StdException string | UnknownException

datatype call_result = Normal | Thrown thrown

text \<open>
  The user's bound callable \<^verbatim>\<open>std::bind(f, args...)\<close> is modelled by what invoking it does:
  it returns a value or throws. A \<^verbatim>\<open>std::packaged_task\<close> owns the callable and the shared
  state that the \<^verbatim>\<open>std::future\<close> returned by \<^verbatim>\<open>submit\<close> reads; \<open>None\<close> is "not ready".
\<close>

datatype outcome = Returns int | Throws thrown

record packaged_task =
  callable :: outcome
  shared_state :: "outcome option"

text \<open>
  \<^verbatim>\<open>shared_ptr\<close>s are addresses into two stores of the pool state below. The closure
  \<^verbatim>\<open>[task, task_info]\<close> stored in \<^verbatim>\<open>Task::function\<close> is the pair of addresses it captures;
  an empty \<^verbatim>\<open>std::function\<close> is \<open>None\<close>.
\<close>

record wrapper =
  w_task :: nat
  w_task_info :: nat

record Task =
  id_t :: string
  priority_t :: TaskPriority
  function_t :: "wrapper option"
  submit_time_t :: time_point
  info_t :: nat

text \<open>\<^verbatim>\<open>Task::operator<\<close> (thread_pool.h, lines 134-139).\<close>

definition task_less :: "Task \<Rightarrow> Task \<Rightarrow> bool" where
  "task_less a other =
     (if priority_t a \<noteq> priority_t other
      then priority_value (priority_t a) < priority_value (priority_t other)
      else submit_time_t a > submit_time_t other)"

subsection \<open>\<^verbatim>\<open>std::priority_queue<Task>\<close>\<close>

text \<open>
  The queue is the list of its elements in the order they were pushed. \<^verbatim>\<open>top()\<close> returns
  an element that is not \<^verbatim>\<open>operator<\<close> any other; which one among equivalent elements is
  left open by the C++ standard, and the model takes the one pushed first. \<^verbatim>\<open>top()\<close> on
  an empty queue is undefined behaviour and is \<open>None\<close> here; the source guards every use
  with \<^verbatim>\<open>empty()\<close>.
\<close>

definition pq_push :: "Task \<Rightarrow> Task list \<Rightarrow> Task list" where
  "pq_push t q = q @ [t]"

fun pq_best :: "Task \<Rightarrow> Task list \<Rightarrow> Task" where
  "pq_best m [] = m"
| "pq_best m (x # xs) = pq_best (if task_less m x then x else m) xs"

fun pq_top :: "Task list \<Rightarrow> Task option" where
  "pq_top [] = None"
| "pq_top (x # xs) = Some (pq_best x xs)"

definition pq_pop :: "Task list \<Rightarrow> Task list" where
  "pq_pop q = (case pq_top q of None \<Rightarrow> q | Some t \<Rightarrow> remove1 t q)"

subsection \<open>\<^verbatim>\<open>std::unordered_map<std::string, std::shared_ptr<TaskInfo>>\<close>\<close>

text \<open>
  An association list with one entry per key. \<^verbatim>\<open>m[k] = v\<close> replaces the value of an
  existing key and inserts a new key otherwise; \<^verbatim>\<open>find\<close> is \<^const>\<open>map_of\<close>.
\<close>

fun umap_assign :: "string \<Rightarrow> nat \<Rightarrow> (string \<times> nat) list \<Rightarrow> (string \<times> nat) list" where
  "umap_assign k v [] = [(k, v)]"
| "umap_assign k v ((k', v') # m) =
     (if k' = k then (k, v) # m else (k', v') # umap_assign k v m)"

subsection \<open>The pool\<close>

text \<open>
  A worker thread is waiting at the top of its loop (blocked on, or about to enter, the
  locked section), holds a task it has popped and not yet run, or has left the loop.
\<close>

datatype worker = Waiting | Holding Task | Exited

record ThreadPool =
  workers :: "worker list"
  tasks :: "Task list"
  task_infos :: "(string \<times> nat) list"
  stop :: bool
  force_stop :: bool
  active_threads :: nat
  task_counter :: nat
  stats :: ThreadPoolStats
  info_store :: "nat \<Rightarrow> TaskInfo"
  next_info :: nat
  task_store :: "nat \<Rightarrow> packaged_task"
  next_task :: nat

text \<open>\<^verbatim>\<open>size_t\<close> is taken 64 bits wide; subtracting 1 from 0 wraps.\<close>

definition size_t_max :: nat where
  "size_t_max = 2 ^ 64 - 1"

definition size_t_dec :: "nat \<Rightarrow> nat" where
  "size_t_dec n = (if n = 0 then size_t_max else n - 1)"

definition null_info :: TaskInfo where
  "null_info = \<lparr>id_ti = [], priority = LOW, status = PENDING, submit_time = 0,
                 start_time = 0, end_time = 0, error_message = []\<rparr>"

definition null_task :: packaged_task where
  "null_task = \<lparr>callable = Returns 0, shared_state = None\<rparr>"

text \<open>
  The members as the constructor (thread_pool.cpp, lines 13-29) leaves them when none of its
  calls throws: \<open>now\<close> is the reading of the clock at line 22, and every thread starts at
  the top of \<^verbatim>\<open>workerThread\<close>'s loop. The exceptions are in \<open>ThreadPool_construct\<close> below.
\<close>

definition ThreadPool_new :: "nat \<Rightarrow> time_point \<Rightarrow> ThreadPool" where
  "ThreadPool_new n now =
     \<lparr>workers = replicate n Waiting,
      tasks = [],
      task_infos = [],
      stop = False,
      force_stop = False,
      active_threads = 0,
      task_counter = 0,
      stats = \<lparr>thread_count = n, active_threads_st = 0, pending_tasks = 0,
                completed_tasks = 0, failed_tasks = 0,
                average_task_duration_ms = Some 0, start_time_st = now\<rparr>,
      info_store = (\<lambda>_. null_info),
      next_info = 0,
      task_store = (\<lambda>_. null_task),
      next_task = 0\<rparr>"

text \<open>
  The constructor with its exceptions. \<^verbatim>\<open>workers_.reserve(thread_count)\<close> throws
  (\<^verbatim>\<open>std::length_error\<close> or \<^verbatim>\<open>std::bad_alloc\<close>) when the count is more than the vector can
  hold on the platform, and the constructor of \<^verbatim>\<open>std::thread\<close> throws \<^verbatim>\<open>std::system_error\<close>
  when the platform starts no further thread; if that happens after a first thread has
  started, unwinding destroys a joinable \<^verbatim>\<open>std::thread\<close> and the process is terminated. The
  two limits of the platform are parameters. The constructor has no other way to fail.
\<close>

record platform =
  vector_capacity :: nat
  threads_available :: nat

datatype ctor_error = ReserveFailed | ThreadFailed | Terminated

definition ThreadPool_construct :: "platform \<Rightarrow> nat \<Rightarrow> time_point \<Rightarrow> ctor_error + ThreadPool" where
  "ThreadPool_construct pf n now =
     (if vector_capacity pf < n then Inl ReserveFailed
      else if threads_available pf < n
      then (if threads_available pf = 0 then Inl ThreadFailed else Inl Terminated)
      else Inr (ThreadPool_new n now))"

subsection \<open>\<^verbatim>\<open>submit\<close> (thread_pool.h, lines 184-242)\<close>

datatype error = ShuttingDown

text \<open>
  \<open>submit task_id prio f now s\<close>: \<open>f\<close> is the bound callable, \<open>now\<close> the clock reading of
  line 198. The result is the future (the address of the packaged task) or the
  \<^verbatim>\<open>std::runtime_error("ThreadPool is shutting down")\<close>, and the pool after the call. The
  second test of \<^verbatim>\<open>stop_\<close>, under the lock, reads the same value in this sequential model.
\<close>

definition submit ::
  "string \<Rightarrow> TaskPriority \<Rightarrow> outcome \<Rightarrow> time_point \<Rightarrow> ThreadPool \<Rightarrow> (error + nat) \<times> ThreadPool" where
  "submit task_id prio f now s =
     (if stop s then (Inl ShuttingDown, s)
      else
        let ia = next_info s;
            task_info = \<lparr>id_ti = task_id, priority = prio, status = PENDING,
                         submit_time = now, start_time = 0, end_time = 0,
                         error_message = []\<rparr>;
            ta = next_task s;
            s1 = s\<lparr>info_store := (info_store s)(ia := task_info), next_info := Suc ia,
                   task_store := (task_store s)(ta := \<lparr>callable = f, shared_state = None\<rparr>),
                   next_task := Suc ta\<rparr>
        in if stop s1 then (Inl ShuttingDown, s1)
           else
             let wrapper_task = \<lparr>id_t = task_id, priority_t = prio,
                                 function_t = Some \<lparr>w_task = ta, w_task_info = ia\<rparr>,
                                 submit_time_t = now, info_t = ia\<rparr>
             in (Inr ta, s1\<lparr>tasks := pq_push wrapper_task (tasks s1),
                              task_infos := umap_assign task_id ia (task_infos s1)\<rparr>))"

subsection \<open>Statistics: \<^verbatim>\<open>updateStats\<close> (thread_pool.cpp, lines 104-121)\<close>

definition d_mul_size :: "double \<Rightarrow> nat \<Rightarrow> double" where
  "d_mul_size a n = map_option (\<lambda>x. x * real n) a"

definition d_add_int :: "double \<Rightarrow> int \<Rightarrow> double" where
  "d_add_int a d = map_option (\<lambda>x. x + real_of_int d) a"

text \<open>Dividing by zero gives an infinity or a NaN.\<close>

definition d_div_size :: "double \<Rightarrow> nat \<Rightarrow> double" where
  "d_div_size a n = (case a of None \<Rightarrow> None | Some x \<Rightarrow> if n = 0 then None else Some (x / real n))"

text \<open>
  \<^verbatim>\<open>duration_cast<milliseconds>(end_time - start_time).count()\<close>; it is only evaluated for
  a positive difference, where truncation is \<open>div\<close>.
\<close>

definition duration_ms :: "TaskInfo \<Rightarrow> int" where
  "duration_ms info = (end_time info - start_time info) div ticks_per_ms"

definition updateStats :: "TaskInfo \<Rightarrow> ThreadPoolStats \<Rightarrow> ThreadPoolStats" where
  "updateStats info st =
     (let st1 = (if status info = COMPLETED then st\<lparr>completed_tasks := completed_tasks st + 1\<rparr>
                 else if status info = FAILED then st\<lparr>failed_tasks := failed_tasks st + 1\<rparr>
                 else st)
      in if end_time info > start_time info then
           let duration = duration_ms info;
               total_duration = d_mul_size (average_task_duration_ms st1)
                                  (size_t_dec (completed_tasks st1 + failed_tasks st1))
           in st1\<lparr>average_task_duration_ms :=
                     d_div_size (d_add_int total_duration duration)
                       (completed_tasks st1 + failed_tasks st1)\<rparr>
         else st1)"

subsection \<open>Running a task\<close>

text \<open>
  \<^verbatim>\<open>(*task)()\<close> on a \<^verbatim>\<open>std::packaged_task\<close>: the callable is invoked and what it returns or
  throws is stored in the shared state; the call itself returns normally. Only a second
  invocation throws (\<^verbatim>\<open>std::future_error\<close>, which is a \<^verbatim>\<open>std::exception\<close>).
\<close>

definition future_error_what :: string where
  "future_error_what = ''std::future_error: Promise already satisfied''"

definition invoke_packaged :: "nat \<Rightarrow> ThreadPool \<Rightarrow> call_result \<times> ThreadPool" where
  "invoke_packaged ta s =
     (let pt = task_store s ta
      in if shared_state pt \<noteq> None then (Thrown (StdException future_error_what), s)
         else (Normal, s\<lparr>task_store := (task_store s)(ta := pt\<lparr>shared_state := Some (callable pt)\<rparr>)\<rparr>))"

definition set_status :: "nat \<Rightarrow> TaskStatus \<Rightarrow> ThreadPool \<Rightarrow> ThreadPool" where
  "set_status ia st s = s\<lparr>info_store := (info_store s)(ia := (info_store s ia)\<lparr>status := st\<rparr>)\<rparr>"

definition set_start_time :: "nat \<Rightarrow> time_point \<Rightarrow> ThreadPool \<Rightarrow> ThreadPool" where
  "set_start_time ia t s = s\<lparr>info_store := (info_store s)(ia := (info_store s ia)\<lparr>start_time := t\<rparr>)\<rparr>"

definition set_end_time :: "nat \<Rightarrow> time_point \<Rightarrow> ThreadPool \<Rightarrow> ThreadPool" where
  "set_end_time ia t s = s\<lparr>info_store := (info_store s)(ia := (info_store s ia)\<lparr>end_time := t\<rparr>)\<rparr>"

definition set_error_message :: "nat \<Rightarrow> string \<Rightarrow> ThreadPool \<Rightarrow> ThreadPool" where
  "set_error_message ia m s =
     s\<lparr>info_store := (info_store s)(ia := (info_store s ia)\<lparr>error_message := m\<rparr>)\<rparr>"

text \<open>
  The \<^verbatim>\<open>try\<close>/\<^verbatim>\<open>catch\<close> block that both the closure of \<^verbatim>\<open>submit\<close> and \<^verbatim>\<open>workerThread\<close>
  put around the call: the status after the call, by what the call did.
\<close>

fun catch_result :: "nat \<Rightarrow> call_result \<Rightarrow> ThreadPool \<Rightarrow> ThreadPool" where
  "catch_result ia Normal s = set_status ia COMPLETED s"
| "catch_result ia (Thrown (StdException what)) s =
     set_error_message ia what (set_status ia FAILED s)"
| "catch_result ia (Thrown UnknownException) s =
     set_error_message ia ''Unknown exception'' (set_status ia FAILED s)"

text \<open>
  The closure \<^verbatim>\<open>wrapper_task.function\<close> (thread_pool.h, lines 218-234); \<open>t_start\<close> and
  \<open>t_end\<close> are its two clock readings. Every exception is caught inside, so the closure
  returns normally.
\<close>

definition wrapper_function ::
  "wrapper \<Rightarrow> time_point \<Rightarrow> time_point \<Rightarrow> ThreadPool \<Rightarrow> call_result \<times> ThreadPool" where
  "wrapper_function wr t_start t_end s =
     (let ia = w_task_info wr;
          s1 = set_start_time ia t_start (set_status ia RUNNING s);
          (r, s2) = invoke_packaged (w_task wr) s1;
          s3 = catch_result ia r s2
      in (Normal, set_end_time ia t_end s3))"

text \<open>The four clock readings made while one task runs, in program order.\<close>

record run_clock =
  worker_start :: time_point
  closure_start :: time_point
  closure_end :: time_point
  worker_end :: time_point

subsection \<open>\<^verbatim>\<open>workerThread\<close> (thread_pool.cpp, lines 35-91)\<close>

text \<open>
  The locked section (lines 44-65) of worker \<open>w\<close>. While the wait predicate is false the
  thread stays blocked and the state is unchanged.
\<close>

definition worker_locked :: "nat \<Rightarrow> ThreadPool \<Rightarrow> ThreadPool" where
  "worker_locked w s =
     (if \<not> (tasks s \<noteq> [] \<or> stop s \<or> force_stop s) then s
      else if (stop s \<and> tasks s = []) \<or> force_stop s
      then s\<lparr>workers := (workers s)[w := Exited]\<rparr>
      else if tasks s \<noteq> []
      then (case pq_top (tasks s) of
              Some task \<Rightarrow> s\<lparr>tasks := pq_pop (tasks s),
                               active_threads := active_threads s + 1,
                               workers := (workers s)[w := Holding task]\<rparr>
            | None \<Rightarrow> s)
      else s)"

text \<open>
  The rest of the iteration (lines 67-89), outside the lock, for the task popped; \<open>c\<close>
  holds the clock readings. It is modelled as one step.
\<close>

definition worker_execute :: "run_clock \<Rightarrow> nat \<Rightarrow> Task \<Rightarrow> ThreadPool \<Rightarrow> ThreadPool" where
  "worker_execute c w task s =
     (let s5 = (case function_t task of
                  None \<Rightarrow> s
                | Some wr \<Rightarrow>
                    let ia = info_t task;
                        s1 = set_start_time ia (worker_start c) (set_status ia RUNNING s);
                        (r, s2) = wrapper_function wr (closure_start c) (closure_end c) s1;
                        s3 = catch_result ia r s2;
                        s4 = set_end_time ia (worker_end c) s3
                    in s4\<lparr>stats := updateStats (info_store s4 ia) (stats s4)\<rparr>)
      in s5\<lparr>active_threads := size_t_dec (active_threads s5),
             workers := (workers s5)[w := Waiting]\<rparr>)"

text \<open>One step of worker \<open>w\<close>; \<open>clk\<close> gives the clock readings made while a task runs.\<close>

definition worker_step :: "(Task \<Rightarrow> run_clock) \<Rightarrow> nat \<Rightarrow> ThreadPool \<Rightarrow> ThreadPool" where
  "worker_step clk w s =
     (if w < length (workers s)
      then (case workers s ! w of
              Waiting \<Rightarrow> worker_locked w s
            | Holding task \<Rightarrow> worker_execute (clk task) w task s
            | Exited \<Rightarrow> s)
      else s)"

subsection \<open>Cancellation and queries (thread_pool.cpp, lines 137-225)\<close>

text \<open>
  \<^verbatim>\<open>cancelPendingTasks\<close> pops every task and marks its record; the marks are the same in
  whatever order the tasks are popped, so the loop runs over the queue as a list.
\<close>

fun cancel_all :: "Task list \<Rightarrow> ThreadPool \<Rightarrow> ThreadPool" where
  "cancel_all [] s = s"
| "cancel_all (t # ts) s = cancel_all ts (set_status (info_t t) CANCELLED s)"

definition cancelPendingTasks :: "ThreadPool \<Rightarrow> ThreadPool" where
  "cancelPendingTasks s = (cancel_all (tasks s) s)\<lparr>tasks := []\<rparr>"

definition cancelTask :: "string \<Rightarrow> ThreadPool \<Rightarrow> bool \<times> ThreadPool" where
  "cancelTask task_id s =
     (case map_of (task_infos s) task_id of
        Some ia \<Rightarrow> if status (info_store s ia) = PENDING
                   then (True, set_status ia CANCELLED s) else (False, s)
      | None \<Rightarrow> (False, s))"

definition pendingTasks :: "ThreadPool \<Rightarrow> nat" where
  "pendingTasks s = length (tasks s)"

definition getStats :: "ThreadPool \<Rightarrow> ThreadPoolStats" where
  "getStats s = (stats s)\<lparr>active_threads_st := active_threads s, pending_tasks := length (tasks s)\<rparr>"


definition isShuttingDown :: "ThreadPool \<Rightarrow> bool" where
  "isShuttingDown s = (stop s \<or> force_stop s)"

subsection \<open>A worker thread run until it leaves its loop\<close>

text \<open>
  \<^verbatim>\<open>std::thread::join\<close> returns when the thread has left \<^verbatim>\<open>workerThread\<close>. A waiting thread
  whose wait predicate is false stays blocked: with no other thread acting the join never
  returns, which is \<open>None\<close> (as is an index that names no thread). The recursion ends
  because every iteration pops a task.
\<close>

lemma pq_best_mem: "pq_best m xs \<in> set (m # xs)"
  by (induction xs arbitrary: m) auto

lemma pq_top_mem: "pq_top q = Some t \<Longrightarrow> t \<in> set q"
  using pq_best_mem by (cases q) auto

lemma pq_top_None: "pq_top q = None \<longleftrightarrow> q = []"
  by (cases q) auto

lemma length_pq_pop: "q \<noteq> [] \<Longrightarrow> Suc (length (pq_pop q)) = length q"
proof -
  assume "q \<noteq> []"
  then obtain t where t: "pq_top q = Some t" by (cases q) auto
  then have "t \<in> set q" by (rule pq_top_mem)
  then show ?thesis using t \<open>q \<noteq> []\<close> by (simp add: pq_pop_def length_remove1)
qed

definition worker_rank :: "nat \<Rightarrow> ThreadPool \<Rightarrow> nat" where
  "worker_rank w s =
     3 * length (tasks s) + (case workers s ! w of Exited \<Rightarrow> 0 | Waiting \<Rightarrow> 1 | Holding _ \<Rightarrow> 2)"

lemma worker_execute_tasks: "tasks (worker_execute c w t s) = tasks s"
  by (auto simp: worker_execute_def wrapper_function_def invoke_packaged_def Let_def
      set_status_def set_start_time_def set_end_time_def set_error_message_def
      split: option.splits prod.splits call_result.splits thrown.splits if_splits)

lemma worker_execute_workers: "workers (worker_execute c w t s) = (workers s)[w := Waiting]"
  by (auto simp: worker_execute_def wrapper_function_def invoke_packaged_def Let_def
      set_status_def set_start_time_def set_end_time_def set_error_message_def
      split: option.splits prod.splits call_result.splits thrown.splits if_splits)

function worker_thread :: "(Task \<Rightarrow> run_clock) \<Rightarrow> nat \<Rightarrow> ThreadPool \<Rightarrow> ThreadPool option" where
  "worker_thread clk w s =
     (if length (workers s) \<le> w then None
      else (case workers s ! w of
              Exited \<Rightarrow> Some s
            | Holding task \<Rightarrow> worker_thread clk w (worker_execute (clk task) w task s)
            | Waiting \<Rightarrow>
                if \<not> (tasks s \<noteq> [] \<or> stop s \<or> force_stop s) then None
                else worker_thread clk w (worker_locked w s)))"
  by pat_completeness auto
termination
proof (relation "measure (\<lambda>(clk, w, s). worker_rank w s)", goal_cases)
  case 1
  then show ?case by simp
next
  case (2 clk w s)
  then show ?case
    using length_pq_pop [of "tasks s"]
    by (auto simp: worker_rank_def worker_locked_def pq_top_None split: option.splits)
next
  case (3 clk w s task)
  then show ?case
    by (simp add: worker_rank_def worker_execute_tasks worker_execute_workers)
qed

declare worker_thread.simps [simp del]

fun join_all :: "(Task \<Rightarrow> run_clock) \<Rightarrow> nat list \<Rightarrow> ThreadPool \<Rightarrow> ThreadPool option" where
  "join_all clk [] s = Some s"
| "join_all clk (w # ws) s =
     (case worker_thread clk w s of None \<Rightarrow> None | Some s' \<Rightarrow> join_all clk ws s')"

subsection \<open>\<^verbatim>\<open>shutdown\<close> and \<^verbatim>\<open>forceShutdown\<close> (thread_pool.cpp, lines 227-259)\<close>

text \<open>
  Each sets its flag, wakes the workers and joins them in the order of \<^verbatim>\<open>workers_\<close>
  (\<open>join_workers\<close> is that loop), then clears the vector. \<open>None\<close>: the call does not
  return.
\<close>

definition join_workers :: "(Task \<Rightarrow> run_clock) \<Rightarrow> ThreadPool \<Rightarrow> ThreadPool option" where
  "join_workers clk s = join_all clk [0..<length (workers s)] s"

definition shutdown :: "(Task \<Rightarrow> run_clock) \<Rightarrow> ThreadPool \<Rightarrow> ThreadPool option" where
  "shutdown clk s =
     map_option (\<lambda>s'. s'\<lparr>workers := []\<rparr>) (join_workers clk (s\<lparr>stop := True\<rparr>))"

definition forceShutdown :: "(Task \<Rightarrow> run_clock) \<Rightarrow> ThreadPool \<Rightarrow> ThreadPool option" where
  "forceShutdown clk s =
     map_option (\<lambda>s'. s'\<lparr>workers := []\<rparr>) (join_workers clk (s\<lparr>force_stop := True\<rparr>))"

section \<open>Dequeue order\<close>

text \<open>\<open>dominates t u\<close>: \<open>t\<close> is dequeued no later than \<open>u\<close>; it is the negation of \<^verbatim>\<open>t < u\<close>.\<close>

lemma priority_value_eq: "priority_value a = priority_value b \<longleftrightarrow> a = b"
  by (cases a; cases b) simp_all

definition dominates :: "Task \<Rightarrow> Task \<Rightarrow> bool" where
  "dominates t u =
     (priority_value (priority_t u) < priority_value (priority_t t) \<or>
      priority_t u = priority_t t \<and> submit_time_t t \<le> submit_time_t u)"

lemma not_task_less: "\<not> task_less t u \<longleftrightarrow> dominates t u"
proof (cases "priority_t t = priority_t u")
  case True
  then show ?thesis by (auto simp: task_less_def dominates_def)
next
  case False
  then have "priority_value (priority_t t) \<noteq> priority_value (priority_t u)"
    by (simp add: priority_value_eq)
  then show ?thesis using False by (auto simp: task_less_def dominates_def)
qed

lemma dominates_trans: "dominates a b \<Longrightarrow> dominates b c \<Longrightarrow> dominates a c"
  by (auto simp: dominates_def)

lemma dominates_total: "dominates a b \<or> dominates b a"
proof (cases "priority_t a = priority_t b")
  case True
  then show ?thesis by (auto simp: dominates_def)
next
  case False
  then have "priority_value (priority_t a) \<noteq> priority_value (priority_t b)"
    by (simp add: priority_value_eq)
  then show ?thesis by (auto simp: dominates_def)
qed

lemma pq_best_dominates: "\<forall>u \<in> set (m # xs). dominates (pq_best m xs) u"
proof (induction xs arbitrary: m)
  case Nil
  show ?case using dominates_total [of m m] by simp
next
  case (Cons x xs)
  let ?m' = "if task_less m x then x else m"
  have ih: "\<forall>u \<in> set (?m' # xs). dominates (pq_best ?m' xs) u" by (rule Cons.IH)
  then have best: "dominates (pq_best ?m' xs) ?m'" by simp
  have "dominates ?m' m \<and> dominates ?m' x"
    using dominates_total [of m x] dominates_total [of m m] dominates_total [of x x]
    by (auto simp: not_task_less [symmetric])
  then have "dominates (pq_best ?m' xs) m" "dominates (pq_best ?m' xs) x"
    using best dominates_trans by blast+
  with ih show ?case by simp
qed

lemma pq_top_dominates: "pq_top q = Some t \<Longrightarrow> u \<in> set q \<Longrightarrow> dominates t u"
  using pq_best_dominates by (cases q) auto

definition c3_task :: "string \<Rightarrow> TaskPriority \<Rightarrow> time_point \<Rightarrow> nat \<Rightarrow> Task" where
  "c3_task i p t a = \<lparr>id_t = i, priority_t = p, function_t = Some \<lparr>w_task = a, w_task_info = a\<rparr>,
                      submit_time_t = t, info_t = a\<rparr>"

definition c3_pool :: ThreadPool where
  "c3_pool = (ThreadPool_new 1 0)\<lparr>tasks := [c3_task ''a'' LOW 1 0, c3_task ''b'' HIGH 3 1,
                                            c3_task ''c'' HIGH 2 2, c3_task ''d'' NORMAL 1 3]\<rparr>"

definition c3_clk :: "Task \<Rightarrow> run_clock" where
  "c3_clk t = \<lparr>worker_start = 0, closure_start = 0, closure_end = 0, worker_end = 0\<rparr>"

text \<open>
  Claim C3. A waiting worker that finds the queue non-empty (and no forced stop) takes a
  task \<open>t\<close> of the queue such that no queued task has a higher priority, and no queued task
  of the same priority has an earlier submit time; the queue loses exactly \<open>t\<close>.
\<close>

theorem worker_dequeues_highest:
  assumes "w < length (workers s)" and "workers s ! w = Waiting"
    and "tasks s \<noteq> []" and "\<not> force_stop s"
  shows "\<exists>t. workers (worker_step clk w s) ! w = Holding t \<and> t \<in> set (tasks s) \<and>
             tasks (worker_step clk w s) = remove1 t (tasks s) \<and>
             (\<forall>u \<in> set (tasks s).
                 priority_value (priority_t u) \<le> priority_value (priority_t t) \<and>
                 (priority_t u = priority_t t \<longrightarrow> submit_time_t t \<le> submit_time_t u))"
proof -
  obtain t where t: "pq_top (tasks s) = Some t"
    using assms(3) by (cases "tasks s") auto
  have step: "worker_step clk w s =
      s\<lparr>tasks := remove1 t (tasks s), active_threads := active_threads s + 1,
        workers := (workers s)[w := Holding t]\<rparr>"
    using assms t by (simp add: worker_step_def worker_locked_def pq_pop_def)
  have "\<forall>u \<in> set (tasks s). dominates t u"
    using t pq_top_dominates by blast
  then have "\<forall>u \<in> set (tasks s).
                 priority_value (priority_t u) \<le> priority_value (priority_t t) \<and>
                 (priority_t u = priority_t t \<longrightarrow> submit_time_t t \<le> submit_time_t u)"
    by (auto simp: dominates_def)
  moreover have "t \<in> set (tasks s)" using t by (rule pq_top_mem)
  ultimately show ?thesis using step assms(1) by simp
qed

text \<open>
  A queue holding LOW, HIGH (submitted at 3), HIGH (submitted at 2) and NORMAL: the worker
  takes the HIGH task submitted at 2.
\<close>

theorem worker_dequeues_highest_witness:
  "workers (worker_step c3_clk 0 c3_pool) ! 0 = Holding (c3_task ''c'' HIGH 2 2) \<and>
   tasks (worker_step c3_clk 0 c3_pool) =
     [c3_task ''a'' LOW 1 0, c3_task ''b'' HIGH 3 1, c3_task ''d'' NORMAL 1 3] \<and>
   (\<exists>t. workers (worker_step c3_clk 0 c3_pool) ! 0 = Holding t \<and> t \<in> set (tasks c3_pool) \<and>
             tasks (worker_step c3_clk 0 c3_pool) = remove1 t (tasks c3_pool) \<and>
             (\<forall>u \<in> set (tasks c3_pool).
                 priority_value (priority_t u) \<le> priority_value (priority_t t) \<and>
                 (priority_t u = priority_t t \<longrightarrow> submit_time_t t \<le> submit_time_t u)))"
proof -
  have h: "0 < length (workers c3_pool)" "workers c3_pool ! 0 = Waiting"
    "tasks c3_pool \<noteq> []" "\<not> force_stop c3_pool"
    by (simp_all add: c3_pool_def ThreadPool_new_def)
  have e: "workers (worker_step c3_clk 0 c3_pool) ! 0 = Holding (c3_task ''c'' HIGH 2 2)"
    "tasks (worker_step c3_clk 0 c3_pool) =
     [c3_task ''a'' LOW 1 0, c3_task ''b'' HIGH 3 1, c3_task ''d'' NORMAL 1 3]"
    by (simp_all add: worker_step_def c3_pool_def ThreadPool_new_def worker_locked_def
        task_less_def c3_task_def pq_pop_def)
  show ?thesis using worker_dequeues_highest [OF h, of c3_clk] e by blast
qed

section \<open>Construction\<close>

text \<open>
  Claim C9, as the code has it. A thread count of zero is accepted on every platform: the
  constructor returns a pool with no worker, which is not shutting down and accepts a
  submission. There is no check of the count.
\<close>

theorem zero_count_accepted:
  "ThreadPool_construct pf 0 now = Inr (ThreadPool_new 0 now) \<and>
   workers (ThreadPool_new 0 now) = [] \<and>
   thread_count (stats (ThreadPool_new 0 now)) = 0 \<and>
   \<not> isShuttingDown (ThreadPool_new 0 now) \<and>
   fst (submit task_id prio f t (ThreadPool_new 0 now)) = Inr 0"
  by (simp add: ThreadPool_construct_def ThreadPool_new_def isShuttingDown_def submit_def Let_def)

text \<open>With a count of zero a pool without workers is created, and it queues a submitted task.\<close>

theorem zero_workers_pool_created:
  "ThreadPool_construct \<lparr>vector_capacity = 1000, threads_available = 8\<rparr> 0 0 =
     Inr (ThreadPool_new 0 0) \<and>
   length (workers (ThreadPool_new 0 0)) = 0 \<and>
   fst (submit ''a'' NORMAL (Returns 1) 5 (ThreadPool_new 0 0)) = Inr 0 \<and>
   pendingTasks (snd (submit ''a'' NORMAL (Returns 1) 5 (ThreadPool_new 0 0))) = 1"
  by (simp add: ThreadPool_construct_def ThreadPool_new_def submit_def Let_def pendingTasks_def
      pq_push_def)

section \<open>Submission\<close>

text \<open>The \<^verbatim>\<open>wrapper_task\<close> that \<^verbatim>\<open>submit\<close> pushes, and what an accepted call leaves behind.\<close>

definition submitted_task :: "string \<Rightarrow> TaskPriority \<Rightarrow> time_point \<Rightarrow> nat \<Rightarrow> nat \<Rightarrow> Task" where
  "submitted_task task_id prio now ta ia =
     \<lparr>id_t = task_id, priority_t = prio, function_t = Some \<lparr>w_task = ta, w_task_info = ia\<rparr>,
      submit_time_t = now, info_t = ia\<rparr>"

lemma map_of_umap_assign: "map_of (umap_assign k v m) = (map_of m)(k \<mapsto> v)"
  by (induction m) (auto simp: fun_eq_iff)

lemma keys_umap_assign: "k \<in> fst ` set m \<Longrightarrow> map fst (umap_assign k v m) = map fst m"
  by (induction m) force+

lemma submit_accepts:
  assumes "\<not> stop s"
  shows "submit task_id prio f now s =
    (Inr (next_task s),
     s\<lparr>info_store := (info_store s)(next_info s :=
          \<lparr>id_ti = task_id, priority = prio, status = PENDING, submit_time = now,
           start_time = 0, end_time = 0, error_message = []\<rparr>),
       next_info := Suc (next_info s),
       task_store := (task_store s)(next_task s := \<lparr>callable = f, shared_state = None\<rparr>),
       next_task := Suc (next_task s),
       tasks := tasks s @ [submitted_task task_id prio now (next_task s) (next_info s)],
       task_infos := umap_assign task_id (next_info s) (task_infos s)\<rparr>)"
  using assms by (simp add: submit_def Let_def pq_push_def submitted_task_def)

definition c6_pool :: ThreadPool where
  "c6_pool = snd (submit ''a'' NORMAL (Returns 1) 10 (ThreadPool_new 1 0))"

text \<open>
  Claim C6, as the code has it. \<^verbatim>\<open>submit\<close> does not look the id up: when the id is already
  a key of \<^verbatim>\<open>task_infos_\<close> and the pool is not stopping, the call succeeds, the map keeps
  its keys and now maps the id to the new record (which is PENDING), and the new task is
  pushed onto the queue.
\<close>

theorem submit_existing_id_replaces:
  assumes "map_of (task_infos s) task_id = Some old" and "\<not> stop s"
  shows "fst (submit task_id prio f now s) = Inr (next_task s) \<and>
         map_of (task_infos (snd (submit task_id prio f now s))) task_id = Some (next_info s) \<and>
         map fst (task_infos (snd (submit task_id prio f now s))) = map fst (task_infos s) \<and>
         tasks (snd (submit task_id prio f now s)) =
           tasks s @ [submitted_task task_id prio now (next_task s) (next_info s)] \<and>
         status (info_store (snd (submit task_id prio f now s)) (next_info s)) = PENDING"
proof -
  have "task_id \<in> fst ` set (task_infos s)"
    using assms(1) by (meson domI domIff map_of_eq_None_iff)
  then show ?thesis
    using assms(2) by (simp add: submit_accepts map_of_umap_assign keys_umap_assign)
qed

text \<open>Submitting the id \<open>''a''\<close> twice to a fresh pool.\<close>

theorem submit_existing_id_replaces_witness:
  "fst (submit ''a'' HIGH (Returns 2) 20 c6_pool) = Inr 1 \<and>
   map_of (task_infos (snd (submit ''a'' HIGH (Returns 2) 20 c6_pool))) ''a'' = Some 1 \<and>
   map fst (task_infos (snd (submit ''a'' HIGH (Returns 2) 20 c6_pool))) = [''a''] \<and>
   tasks (snd (submit ''a'' HIGH (Returns 2) 20 c6_pool)) =
     [submitted_task ''a'' NORMAL 10 0 0, submitted_task ''a'' HIGH 20 1 1] \<and>
   status (info_store (snd (submit ''a'' HIGH (Returns 2) 20 c6_pool)) 1) = PENDING"
proof -
  have h: "map_of (task_infos c6_pool) ''a'' = Some 0" "\<not> stop c6_pool"
    by (simp_all add: c6_pool_def ThreadPool_new_def submit_def Let_def)
  have e: "next_task c6_pool = 1" "next_info c6_pool = 1"
    "map fst (task_infos c6_pool) = [''a'']" "tasks c6_pool = [submitted_task ''a'' NORMAL 10 0 0]"
    by (simp_all add: c6_pool_def ThreadPool_new_def submit_def Let_def pq_push_def submitted_task_def)
  show ?thesis
    using submit_existing_id_replaces [OF h, of HIGH "Returns 2" 20] e by simp
qed

text \<open>
  The second submission of \<open>''a''\<close> returns a future, not an error; the map entry moves from
  record 0 to record 1 and the queue grows from one task to two.
\<close>

theorem duplicate_id_not_rejected:
  "map_of (task_infos c6_pool) ''a'' = Some 0 \<and>
   fst (submit ''a'' HIGH (Returns 2) 20 c6_pool) = Inr 1 \<and>
   map_of (task_infos (snd (submit ''a'' HIGH (Returns 2) 20 c6_pool))) ''a'' = Some 1 \<and>
   length (tasks c6_pool) = 1 \<and>
   length (tasks (snd (submit ''a'' HIGH (Returns 2) 20 c6_pool))) = 2"
  by (simp add: c6_pool_def ThreadPool_new_def submit_def Let_def pq_push_def)

section \<open>What a worker does to the pool\<close>





lemmas exec_defs = worker_execute_def wrapper_function_def invoke_packaged_def Let_def
  set_status_def set_start_time_def set_end_time_def set_error_message_def

lemma worker_execute_flags:
  "stop (worker_execute c w t s) = stop s"
  "force_stop (worker_execute c w t s) = force_stop s"
  "task_infos (worker_execute c w t s) = task_infos s"
  by (auto simp: exec_defs
      split: option.splits prod.splits call_result.splits thrown.splits if_splits)




lemma worker_locked_flags:
  "stop (worker_locked w s) = stop s"
  "force_stop (worker_locked w s) = force_stop s"
  "task_infos (worker_locked w s) = task_infos s"
  "task_store (worker_locked w s) = task_store s"
  "info_store (worker_locked w s) = info_store s"
  "stats (worker_locked w s) = stats s"
  "length (workers (worker_locked w s)) = length (workers s)"
  by (auto simp: worker_locked_def split: option.splits)









section \<open>The registry under \<^verbatim>\<open>submit\<close>\<close>

lemma keys_of_umap_assign: "set (map fst (umap_assign k v m)) = insert k (set (map fst m))"
proof (induction m)
  case Nil
  show ?case by simp
next
  case (Cons a m)
  obtain k' v' where a: "a = (k', v')" by (cases a)
  show ?case
  proof (cases "k' = k")
    case True
    then show ?thesis by (simp add: a)
  next
    case False
    then show ?thesis using Cons.IH by (simp add: a insert_commute)
  qed
qed

lemma distinct_umap_assign:
  "distinct (map fst m) \<Longrightarrow> distinct (map fst (umap_assign k v m))"
proof (induction m)
  case Nil
  show ?case by simp
next
  case (Cons a m)
  obtain k' v' where a: "a = (k', v')" by (cases a)
  show ?case
  proof (cases "k' = k")
    case True
    then show ?thesis using Cons.prems by (simp add: a)
  next
    case False
    then show ?thesis using Cons keys_of_umap_assign [of k v m] by (simp add: a)
  qed
qed



section \<open>Evaluating schedules\<close>

text \<open>
  The definitions a concrete schedule unfolds, the clock readings used in the schedules
  below, and a pool of one worker that holds task A (record 0) while task B (record 1) is
  queued.
\<close>

lemmas pool_defs = ThreadPool_new_def submit_def Let_def pq_push_def worker_step_def
  worker_locked_def worker_execute_def wrapper_function_def invoke_packaged_def
  set_status_def set_start_time_def set_end_time_def set_error_message_def
  updateStats_def pq_pop_def task_less_def size_t_dec_def cancelTask_def
  d_mul_size_def d_add_int_def d_div_size_def duration_ms_def

definition test_clk :: "Task \<Rightarrow> run_clock" where
  "test_clk t = \<lparr>worker_start = 100, closure_start = 101, closure_end = 105, worker_end = 106\<rparr>"

definition busy_pool :: ThreadPool where
  "busy_pool =
     snd (submit ''B'' NORMAL (Returns 2) 20
       (worker_step test_clk 0 (snd (submit ''A'' NORMAL (Returns 1) 10 (ThreadPool_new 1 0)))))"

definition c2_cancelled :: ThreadPool where
  "c2_cancelled = snd (cancelTask ''B'' busy_pool)"

definition c2_final :: ThreadPool where
  "c2_final = worker_step test_clk 0 (worker_step test_clk 0 (worker_step test_clk 0 c2_cancelled))"

definition c1_submitted :: ThreadPool where
  "c1_submitted =
     snd (submit ''second'' NORMAL (Returns 7) 20
       (snd (submit ''first'' NORMAL (Throws (StdException ''boom'')) 10 (ThreadPool_new 1 0))))"

definition c1_ran :: ThreadPool where
  "c1_ran = worker_step test_clk 0 (worker_step test_clk 0
              (worker_step test_clk 0 (worker_step test_clk 0 c1_submitted)))"

definition c7_submitted :: ThreadPool where
  "c7_submitted = snd (submit ''x'' NORMAL (Returns 5) 10 (ThreadPool_new 1 0))"

definition c7_cancelled :: ThreadPool where
  "c7_cancelled = snd (cancelTask ''x'' c7_submitted)"

definition c5_pool :: ThreadPool where
  "c5_pool = (ThreadPool_new 2 0)\<lparr>workers := [], force_stop := True\<rparr>"

section \<open>A task that throws\<close>

text \<open>
  Neither \<^verbatim>\<open>try\<close> block ever reaches a \<^verbatim>\<open>catch\<close>: the packaged task stores the exception in
  the future and returns, and the closure catches everything itself, so the worker always
  assigns COMPLETED last.
\<close>

lemma wrapper_function_returns: "fst (wrapper_function wr t_start t_end s) = Normal"
  by (simp add: wrapper_function_def Let_def split: prod.splits)

text \<open>
  Claim C1 on the code: a pool of one worker gets a task that throws
  \<^verbatim>\<open>std::runtime_error("boom")\<close> and a task that returns 7, and the worker runs both. The
  worker survives and the second future holds 7, but the first record ends COMPLETED with
  an empty error text (the exception is only in its future), and the counters read
  2 completed, 0 failed.
\<close>

theorem throwing_task_ends_completed:
  "status (info_store c1_ran 0) = COMPLETED \<and>
   error_message (info_store c1_ran 0) = [] \<and>
   shared_state (task_store c1_ran 0) = Some (Throws (StdException ''boom'')) \<and>
   shared_state (task_store c1_ran 1) = Some (Returns 7) \<and>
   completed_tasks (stats c1_ran) = 2 \<and>
   failed_tasks (stats c1_ran) = 0 \<and>
   workers c1_ran = [Waiting]"
  by (simp add: c1_ran_def c1_submitted_def test_clk_def pool_defs)

section \<open>Cancellation\<close>

lemma cancelTask_true_iff:
  "fst (cancelTask task_id s) \<longleftrightarrow>
     (case map_of (task_infos s) task_id of
        None \<Rightarrow> False | Some ia \<Rightarrow> status (info_store s ia) = PENDING)"
  by (simp add: cancelTask_def split: option.splits)

lemma cancelTask_sets_cancelled:
  "fst (cancelTask task_id s) \<Longrightarrow> map_of (task_infos s) task_id = Some ia \<Longrightarrow>
   status (info_store (snd (cancelTask task_id s)) ia) = CANCELLED \<and>
   tasks (snd (cancelTask task_id s)) = tasks s"
  by (auto simp: cancelTask_def set_status_def split: option.splits if_splits)

lemma cancelPendingTasks_empties_queue: "tasks (cancelPendingTasks s) = []"
  by (simp add: cancelPendingTasks_def)

text \<open>
  Claim C2 on the code: while the worker holds A, task B is submitted and cancelled.
  \<^verbatim>\<open>cancelTask\<close> returns true and B's record is CANCELLED, but B stays in the queue; the
  worker then finishes A, takes B and runs it: B's future holds its result, its record
  is COMPLETED and it counts as completed.
\<close>

theorem cancelled_task_is_run:
  "workers busy_pool = [Holding (submitted_task ''A'' NORMAL 10 0 0)] \<and>
   status (info_store busy_pool 1) = PENDING \<and>
   fst (cancelTask ''B'' busy_pool) = True \<and>
   status (info_store c2_cancelled 1) = CANCELLED \<and>
   tasks c2_cancelled = [submitted_task ''B'' NORMAL 20 1 1] \<and>
   status (info_store c2_final 1) = COMPLETED \<and>
   shared_state (task_store c2_final 1) = Some (Returns 2) \<and>
   completed_tasks (stats c2_final) = 2"
  by (simp add: c2_final_def c2_cancelled_def busy_pool_def test_clk_def pool_defs
      submitted_task_def)

text \<open>
  Claim C7 on the code: a task is submitted and cancelled before the worker reaches the
  queue. Its record goes PENDING, CANCELLED, and, once the worker has taken and run it,
  COMPLETED with a start time: the terminal state CANCELLED is left.
\<close>

theorem cancelled_state_is_left:
  "status (info_store c7_submitted 0) = PENDING \<and>
   status (info_store c7_cancelled 0) = CANCELLED \<and>
   status (info_store (worker_step test_clk 0 c7_cancelled) 0) = CANCELLED \<and>
   workers (worker_step test_clk 0 c7_cancelled) = [Holding (submitted_task ''x'' NORMAL 10 0 0)] \<and>
   status (info_store (worker_step test_clk 0 (worker_step test_clk 0 c7_cancelled)) 0) = COMPLETED \<and>
   start_time (info_store (worker_step test_clk 0 (worker_step test_clk 0 c7_cancelled)) 0) = 101"
  by (simp add: c7_cancelled_def c7_submitted_def test_clk_def pool_defs submitted_task_def)

section \<open>Shutdown\<close>

text \<open>With the forced-stop flag set a worker leaves its loop after at most the task it holds.\<close>

definition built_by_submit :: "Task \<Rightarrow> bool" where
  "built_by_submit t = (case function_t t of None \<Rightarrow> False | Some wr \<Rightarrow> w_task_info wr = info_t t)"

definition force_exit :: "(Task \<Rightarrow> run_clock) \<Rightarrow> nat \<Rightarrow> ThreadPool \<Rightarrow> ThreadPool" where
  "force_exit clk w s =
     (case workers s ! w of
        Exited \<Rightarrow> s
      | Waiting \<Rightarrow> s\<lparr>workers := (workers s)[w := Exited]\<rparr>
      | Holding t \<Rightarrow> (worker_execute (clk t) w t s)\<lparr>workers := (workers s)[w := Exited]\<rparr>)"

lemma worker_thread_forced:
  assumes "force_stop s" and "w < length (workers s)"
  shows "worker_thread clk w s = Some (force_exit clk w s)"
proof (cases "workers s ! w")
  case Exited
  then show ?thesis using assms by (subst worker_thread.simps) (simp add: force_exit_def)
next
  case Waiting
  then show ?thesis using assms
    by (subst worker_thread.simps, subst worker_thread.simps)
       (simp add: force_exit_def worker_locked_def)
next
  case (Holding t)
  let ?s1 = "worker_execute (clk t) w t s"
  have 1: "force_stop ?s1" "w < length (workers ?s1)" "workers ?s1 ! w = Waiting"
    using assms by (simp_all add: worker_execute_flags worker_execute_workers)
  have "worker_thread clk w ?s1 = Some (?s1\<lparr>workers := (workers ?s1)[w := Exited]\<rparr>)"
    using 1 by (subst worker_thread.simps, subst worker_thread.simps) (simp add: worker_locked_def)
  moreover have "worker_thread clk w s = worker_thread clk w ?s1"
    using assms Holding by (subst worker_thread.simps) simp
  ultimately show ?thesis
    using Holding by (simp add: force_exit_def worker_execute_workers)
qed









text \<open>The tasks that workers hold.\<close>

definition held_tasks :: "ThreadPool \<Rightarrow> Task list" where
  "held_tasks s = concat (map (\<lambda>x. case x of Holding t \<Rightarrow> [t] | _ \<Rightarrow> []) (workers s))"

lemma held_tasks_iff: "t \<in> set (held_tasks s) \<longleftrightarrow> (\<exists>i < length (workers s). workers s ! i = Holding t)"
  by (auto simp: held_tasks_def in_set_conv_nth split: worker.splits)










lemma submit_rejected_when_stopped: "stop s \<Longrightarrow> submit task_id prio f now s = (Inl ShuttingDown, s)"
  by (simp add: submit_def)

text \<open>
  Claim C5 on the code: \<^verbatim>\<open>forceShutdown\<close> on a fresh pool of two workers returns, and
  \<^verbatim>\<open>isShuttingDown\<close> holds afterwards; yet \<^verbatim>\<open>submit\<close>, which tests \<^verbatim>\<open>stop_\<close> only, accepts a
  task: it returns a future and the task sits in the queue and the registry of a pool
  without workers.
\<close>

theorem submit_after_forceShutdown_accepted:
  "forceShutdown test_clk (ThreadPool_new 2 0) = Some c5_pool \<and>
   isShuttingDown c5_pool \<and>
   fst (submit ''late'' NORMAL (Returns 7) 5 c5_pool) = Inr 0 \<and>
   tasks (snd (submit ''late'' NORMAL (Returns 7) 5 c5_pool)) = [submitted_task ''late'' NORMAL 5 0 0] \<and>
   map_of (task_infos (snd (submit ''late'' NORMAL (Returns 7) 5 c5_pool))) ''late'' = Some 0 \<and>
   workers (snd (submit ''late'' NORMAL (Returns 7) 5 c5_pool)) = []"
proof -
  have "forceShutdown test_clk (ThreadPool_new 2 0) = Some c5_pool"
    by (simp add: forceShutdown_def join_workers_def c5_pool_def ThreadPool_new_def
        upt_rec [of 0] upt_rec [of 1] worker_thread_forced force_exit_def numeral_2_eq_2)
  then show ?thesis
    by (simp add: c5_pool_def isShuttingDown_def ThreadPool_new_def submit_def Let_def
        pq_push_def submitted_task_def)
qed

text \<open>The packaged task that the closure of a task invokes, if the task has a closure.\<close>

definition packaged_of :: "Task \<Rightarrow> nat option" where
  "packaged_of t = map_option w_task (function_t t)"













text \<open>\<^verbatim>\<open>shutdown\<close> leaves \<^verbatim>\<open>stop_\<close> set, so every later \<^verbatim>\<open>submit\<close> throws.\<close>

lemma worker_thread_stop: "worker_thread clk w s = Some s' \<Longrightarrow> stop s' = stop s"
proof (induction clk w s rule: worker_thread.induct)
  case (1 clk w s)
  show ?case
  proof (cases "workers s ! w")
    case Waiting
    then have f: "worker_thread clk w (worker_locked w s) = Some s'"
      "\<not> length (workers s) \<le> w" "tasks s \<noteq> [] \<or> stop s \<or> force_stop s"
      using "1.prems" by (subst (asm) worker_thread.simps, simp split: if_splits)+
    have "stop s' = stop (worker_locked w s)"
      by (rule "1.IH"(1)) (use f Waiting in auto)
    then show ?thesis by (simp add: worker_locked_flags)
  next
    case (Holding t)
    then have f: "worker_thread clk w (worker_execute (clk t) w t s) = Some s'"
      "\<not> length (workers s) \<le> w"
      using "1.prems" by (subst (asm) worker_thread.simps, simp split: if_splits)+
    have "stop s' = stop (worker_execute (clk t) w t s)"
      by (rule "1.IH"(2)) (use f Holding in auto)
    then show ?thesis by (simp add: worker_execute_flags)
  next
    case Exited
    then show ?thesis
      using "1.prems" by (subst (asm) worker_thread.simps) (simp split: if_splits)
  qed
qed

lemma join_all_stop: "join_all clk ws s = Some s' \<Longrightarrow> stop s' = stop s"
  by (induction ws arbitrary: s) (auto split: option.splits dest: worker_thread_stop)

lemma shutdown_then_submit_rejected:
  "shutdown clk s = Some s' \<Longrightarrow> submit task_id prio f now s' = (Inl ShuttingDown, s')"
  by (auto simp: shutdown_def join_workers_def submit_def dest: join_all_stop)

section \<open>Pools that the operations build\<close>

text \<open>
  \<open>pool_wf\<close>: every queued or held task is as \<^verbatim>\<open>submit\<close> built it; the records and the
  packaged tasks of queued and held tasks have been allocated, those of queued tasks are
  pairwise different, and none is shared with a held task; the registry has one entry
  per key, and each entry leads to an allocated record that carries the key as its id. A
  new pool is such, and \<^verbatim>\<open>submit\<close>, \<^verbatim>\<open>cancelTask\<close> and the steps of the workers keep it so.
\<close>

definition task_key :: "Task \<Rightarrow> nat" where
  "task_key t = (case function_t t of None \<Rightarrow> 0 | Some wr \<Rightarrow> w_task wr)"

definition keys_fresh :: "(Task \<Rightarrow> nat) \<Rightarrow> nat \<Rightarrow> Task list \<Rightarrow> Task list \<Rightarrow> bool" where
  "keys_fresh key bound queued held \<longleftrightarrow>
     (\<forall>t \<in> set queued. key t < bound) \<and>
     (\<forall>t \<in> set held. key t < bound) \<and>
     distinct (map key queued) \<and>
     (\<forall>t \<in> set held. key t \<notin> key ` set queued)"

definition registry_wf :: "ThreadPool \<Rightarrow> bool" where
  "registry_wf s \<longleftrightarrow>
     distinct (map fst (task_infos s)) \<and>
     (\<forall>p \<in> set (task_infos s). id_ti (info_store s (snd p)) = fst p \<and> snd p < next_info s)"

definition pool_wf :: "ThreadPool \<Rightarrow> bool" where
  "pool_wf s \<longleftrightarrow>
     (\<forall>t \<in> set (tasks s). built_by_submit t) \<and>
     (\<forall>t \<in> set (held_tasks s). built_by_submit t) \<and>
     keys_fresh info_t (next_info s) (tasks s) (held_tasks s) \<and>
     keys_fresh task_key (next_task s) (tasks s) (held_tasks s) \<and>
     registry_wf s"

lemma distinct_map_remove1: "distinct (map f xs) \<Longrightarrow> distinct (map f (remove1 x xs))"
proof (induction xs)
  case Nil
  show ?case by simp
next
  case (Cons y xs)
  then show ?case using set_remove1_subset [of x xs] by auto
qed

lemma removed_key_absent:
  "distinct (map f xs) \<Longrightarrow> x \<in> set xs \<Longrightarrow> f x \<notin> f ` set (remove1 x xs)"
proof (induction xs)
  case Nil
  then show ?case by simp
next
  case (Cons y xs)
  show ?case
  proof (cases "x = y")
    case True
    then show ?thesis using Cons.prems by simp
  next
    case False
    then have x: "x \<in> set xs" using Cons.prems(2) by simp
    then have "f x \<in> f ` set xs" by (rule imageI)
    then have "f x \<noteq> f y" using Cons.prems(1) by auto
    moreover have "f x \<notin> f ` set (remove1 x xs)"
      using Cons.IH Cons.prems(1) x by simp
    ultimately show ?thesis using False by simp
  qed
qed

lemma keys_fresh_push:
  assumes "keys_fresh key b q h" and "key new = b"
  shows "keys_fresh key (Suc b) (q @ [new]) h"
proof -
  have "b \<notin> key ` set q" using assms(1) by (auto simp: keys_fresh_def)
  moreover have "\<forall>t \<in> set h. key t \<noteq> b" using assms(1) by (auto simp: keys_fresh_def)
  ultimately show ?thesis
    using assms unfolding keys_fresh_def by (auto simp: less_Suc_eq)
qed

lemma keys_fresh_held:
  "keys_fresh key b q h \<Longrightarrow> set h' \<subseteq> set h \<Longrightarrow> keys_fresh key b q h'"
  unfolding keys_fresh_def by blast

lemma keys_fresh_pop:
  assumes "keys_fresh key b q h" and "t \<in> set q" and "set h' \<subseteq> insert t (set h)"
  shows "keys_fresh key b (remove1 t q) h'"
proof -
  have sub: "set (remove1 t q) \<subseteq> set q" by (rule set_remove1_subset)
  have d: "distinct (map key (remove1 t q))"
    using assms(1) by (simp add: keys_fresh_def distinct_map_remove1)
  have a: "key t \<notin> key ` set (remove1 t q)"
    using assms(1,2) by (simp add: keys_fresh_def removed_key_absent)
  have 1: "\<forall>u \<in> set (remove1 t q). key u < b"
    using assms(1) sub by (auto simp: keys_fresh_def)
  have 2: "\<forall>u \<in> set h'. key u < b"
    using assms by (auto simp: keys_fresh_def)
  have 4: "\<forall>u \<in> set h'. key u \<notin> key ` set (remove1 t q)"
  proof
    fix u assume "u \<in> set h'"
    then consider "u = t" | "u \<in> set h" using assms(3) by blast
    then show "key u \<notin> key ` set (remove1 t q)"
    proof cases
      case 1
      then show ?thesis using a by simp
    next
      case 2
      then have "key u \<notin> key ` set q" using assms(1) by (simp add: keys_fresh_def)
      then show ?thesis using sub by blast
    qed
  qed
  show ?thesis unfolding keys_fresh_def using 1 2 d 4 by blast
qed

lemma held_tasks_update:
  assumes "t \<in> set (held_tasks (s\<lparr>workers := (workers s)[w := x]\<rparr>))"
  shows "t \<in> set (held_tasks s) \<or> x = Holding t"
proof -
  from assms obtain i where i: "i < length (workers s)" "(workers s)[w := x] ! i = Holding t"
    by (auto simp: held_tasks_iff)
  show ?thesis
  proof (cases "i = w")
    case True
    then show ?thesis using i by simp
  next
    case False
    then show ?thesis using i by (auto simp: held_tasks_iff)
  qed
qed

lemma held_tasks_cong: "workers s' = workers s \<Longrightarrow> held_tasks s' = held_tasks s"
  by (simp add: held_tasks_def)

lemma pool_wf_new: "pool_wf (ThreadPool_new n now)"
  by (simp add: pool_wf_def keys_fresh_def registry_wf_def ThreadPool_new_def held_tasks_def)

lemma set_umap_assign: "set (umap_assign k v m) \<subseteq> insert (k, v) (set m)"
proof (induction m)
  case Nil
  show ?case by simp
next
  case (Cons a m)
  obtain k' v' where a: "a = (k', v')" by (cases a)
  show ?case
  proof (cases "k' = k")
    case True
    then show ?thesis by (auto simp: a)
  next
    case False
    then show ?thesis using Cons.IH by (auto simp: a)
  qed
qed

lemma registry_wf_submit:
  assumes "registry_wf s" and "\<not> stop s"
  shows "registry_wf (snd (submit task_id prio f now s))"
proof -
  let ?s' = "snd (submit task_id prio f now s)"
  have s': "task_infos ?s' = umap_assign task_id (next_info s) (task_infos s)"
    "next_info ?s' = Suc (next_info s)"
    "id_ti (info_store ?s' (next_info s)) = task_id"
    "\<And>a. a \<noteq> next_info s \<Longrightarrow> info_store ?s' a = info_store s a"
    using assms(2) by (simp_all add: submit_accepts)
  have "\<forall>p \<in> set (task_infos ?s'). id_ti (info_store ?s' (snd p)) = fst p \<and> snd p < next_info ?s'"
  proof
    fix p assume "p \<in> set (task_infos ?s')"
    then consider "p = (task_id, next_info s)" | "p \<in> set (task_infos s)"
      using set_umap_assign [of task_id "next_info s" "task_infos s"] unfolding s'(1) by blast
    then show "id_ti (info_store ?s' (snd p)) = fst p \<and> snd p < next_info ?s'"
    proof cases
      case 1
      then show ?thesis by (simp add: s'(2,3))
    next
      case 2
      then have "id_ti (info_store s (snd p)) = fst p" "snd p < next_info s"
        using assms(1) by (simp_all add: registry_wf_def)
      then show ?thesis using s'(4) [of "snd p"] by (simp add: s'(2))
    qed
  qed
  moreover have "distinct (map fst (task_infos ?s'))"
    using assms(1) by (simp add: s'(1) registry_wf_def distinct_umap_assign)
  ultimately show ?thesis unfolding registry_wf_def by blast
qed

lemma pool_wf_submit:
  assumes "pool_wf s"
  shows "pool_wf (snd (submit task_id prio f now s))"
proof (cases "stop s")
  case True
  then show ?thesis using assms by (simp add: submit_def)
next
  case False
  let ?s' = "snd (submit task_id prio f now s)"
  let ?new = "submitted_task task_id prio now (next_task s) (next_info s)"
  have s': "tasks ?s' = tasks s @ [?new]" "next_info ?s' = Suc (next_info s)"
    "next_task ?s' = Suc (next_task s)" "held_tasks ?s' = held_tasks s"
    using False by (simp_all add: submit_accepts held_tasks_def)
  have new: "built_by_submit ?new" "info_t ?new = next_info s" "task_key ?new = next_task s"
    by (simp_all add: built_by_submit_def submitted_task_def task_key_def)
  have "registry_wf ?s'"
    using assms False by (intro registry_wf_submit) (simp_all add: pool_wf_def)
  then show ?thesis
    using assms new unfolding pool_wf_def s'
    by (auto intro: keys_fresh_push)
qed

lemma worker_execute_counters:
  "next_info (worker_execute c w t s) = next_info s"
  "next_task (worker_execute c w t s) = next_task s"
  by (auto simp: exec_defs
      split: option.splits prod.splits call_result.splits thrown.splits if_splits)

lemma worker_execute_id: "id_ti (info_store (worker_execute c w t s) a) = id_ti (info_store s a)"
  by (auto simp: exec_defs
      split: option.splits prod.splits call_result.splits thrown.splits if_splits)

lemma registry_wf_worker_execute: "registry_wf s \<Longrightarrow> registry_wf (worker_execute c w t s)"
  by (simp add: registry_wf_def worker_execute_flags worker_execute_counters worker_execute_id)

lemma pool_wf_worker_execute:
  assumes "pool_wf s"
  shows "pool_wf (worker_execute c w t s)"
proof -
  let ?s' = "worker_execute c w t s"
  have "held_tasks ?s' = held_tasks (s\<lparr>workers := (workers s)[w := Waiting]\<rparr>)"
    by (rule held_tasks_cong) (simp add: worker_execute_workers)
  then have sub: "set (held_tasks ?s') \<subseteq> set (held_tasks s)"
    using held_tasks_update [of _ s w Waiting] by auto
  then show ?thesis
    using assms unfolding pool_wf_def
    by (auto simp: worker_execute_tasks worker_execute_counters
        intro: keys_fresh_held registry_wf_worker_execute)
qed

lemma worker_locked_cases:
  "worker_locked w s = s \<or>
   worker_locked w s = s\<lparr>workers := (workers s)[w := Exited]\<rparr> \<or>
   (\<exists>t. pq_top (tasks s) = Some t \<and>
        worker_locked w s = s\<lparr>tasks := remove1 t (tasks s),
           active_threads := active_threads s + 1, workers := (workers s)[w := Holding t]\<rparr>)"
  by (cases "pq_top (tasks s)") (simp_all add: worker_locked_def pq_pop_def)

lemma pool_wf_worker_locked:
  assumes "pool_wf s"
  shows "pool_wf (worker_locked w s)"
proof -
  consider (blocked) "worker_locked w s = s"
    | (exit) "worker_locked w s = s\<lparr>workers := (workers s)[w := Exited]\<rparr>"
    | (pop) t where "pq_top (tasks s) = Some t"
        "worker_locked w s = s\<lparr>tasks := remove1 t (tasks s),
           active_threads := active_threads s + 1, workers := (workers s)[w := Holding t]\<rparr>"
    using worker_locked_cases [of w s] by blast
  then show ?thesis
  proof cases
    case blocked
    then show ?thesis using assms by simp
  next
    case exit
    then have sub: "set (held_tasks (worker_locked w s)) \<subseteq> set (held_tasks s)"
      using held_tasks_update [of _ s w Exited] by auto
    have r: "registry_wf (worker_locked w s)"
      using assms by (simp add: exit pool_wf_def registry_wf_def)
    show ?thesis
      using assms sub r unfolding pool_wf_def
      by (auto simp: exit intro: keys_fresh_held)
  next
    case pop
    have t: "t \<in> set (tasks s)" using pop(1) by (rule pq_top_mem)
    have sub: "set (remove1 t (tasks s)) \<subseteq> set (tasks s)" by (rule set_remove1_subset)
    have "held_tasks (worker_locked w s) = held_tasks (s\<lparr>workers := (workers s)[w := Holding t]\<rparr>)"
      by (rule held_tasks_cong) (simp add: pop(2))
    then have held: "set (held_tasks (worker_locked w s)) \<subseteq> insert t (set (held_tasks s))"
      using held_tasks_update [of _ s w "Holding t"] by auto
    have q: "tasks (worker_locked w s) = remove1 t (tasks s)"
      "next_info (worker_locked w s) = next_info s" "next_task (worker_locked w s) = next_task s"
      by (simp_all add: pop(2))
    have r: "registry_wf (worker_locked w s)"
      using assms by (simp add: pop(2) pool_wf_def registry_wf_def)
    have 1: "\<forall>u \<in> set (tasks (worker_locked w s)). built_by_submit u"
      using assms sub by (auto simp: q pool_wf_def)
    have 2: "\<forall>u \<in> set (held_tasks (worker_locked w s)). built_by_submit u"
      using assms held t by (auto simp: pool_wf_def)
    have 3: "keys_fresh info_t (next_info s) (remove1 t (tasks s)) (held_tasks (worker_locked w s))"
      using assms t held by (intro keys_fresh_pop) (simp_all add: pool_wf_def)
    have 4: "keys_fresh task_key (next_task s) (remove1 t (tasks s)) (held_tasks (worker_locked w s))"
      using assms t held by (intro keys_fresh_pop) (simp_all add: pool_wf_def)
    show ?thesis unfolding pool_wf_def q using 1 2 3 4 r by (simp add: q)
  qed
qed

lemma pool_wf_worker_step: "pool_wf s \<Longrightarrow> pool_wf (worker_step clk w s)"
  by (simp add: worker_step_def pool_wf_worker_locked pool_wf_worker_execute split: worker.splits)

lemma set_status_id: "id_ti (info_store (set_status ia st s) a) = id_ti (info_store s a)"
  by (simp add: set_status_def)

lemma registry_wf_set_status: "registry_wf s \<Longrightarrow> registry_wf (set_status ia st s)"
  unfolding registry_wf_def set_status_id by (simp add: set_status_def)

lemma pool_wf_set_status: "pool_wf s \<Longrightarrow> pool_wf (set_status ia st s)"
  unfolding pool_wf_def using registry_wf_set_status [of s ia st]
  by (simp add: set_status_def held_tasks_def)

lemma pool_wf_cancelTask: "pool_wf s \<Longrightarrow> pool_wf (snd (cancelTask task_id s))"
  by (simp add: cancelTask_def pool_wf_set_status split: option.splits)

lemma built_packaged: "built_by_submit t \<Longrightarrow> packaged_of t = Some (task_key t)"
  by (auto simp: built_by_submit_def packaged_of_def task_key_def split: option.splits)

text \<open>
  Every pool reached from a new one by submissions, cancellations and worker steps meets
  the conditions under which the theorem on \<^verbatim>\<open>forceShutdown\<close> was proved.
\<close>

lemma pool_wf_forceShutdown_conditions:
  assumes "pool_wf s"
  shows "(\<forall>t \<in> set (held_tasks s). built_by_submit t) \<and>
         (\<forall>u \<in> set (tasks s). \<forall>t \<in> set (held_tasks s). info_t u \<noteq> info_t t) \<and>
         (\<forall>u \<in> set (tasks s). \<forall>t \<in> set (held_tasks s). packaged_of u \<noteq> packaged_of t)"
proof (intro conjI ballI)
  fix t assume "t \<in> set (held_tasks s)"
  then show "built_by_submit t" using assms by (simp add: pool_wf_def)
next
  fix u t assume ut: "u \<in> set (tasks s)" "t \<in> set (held_tasks s)"
  then have "info_t t \<notin> info_t ` set (tasks s)"
    using assms by (simp add: pool_wf_def keys_fresh_def)
  then show "info_t u \<noteq> info_t t" using ut(1) by (metis imageI)
next
  fix u t assume ut: "u \<in> set (tasks s)" "t \<in> set (held_tasks s)"
  then have "task_key t \<notin> task_key ` set (tasks s)"
    using assms by (simp add: pool_wf_def keys_fresh_def)
  then have "task_key u \<noteq> task_key t" using ut(1) by (metis imageI)
  moreover have "built_by_submit u" "built_by_submit t"
    using assms ut by (simp_all add: pool_wf_def)
  ultimately show "packaged_of u \<noteq> packaged_of t" by (simp add: built_packaged)
qed

section \<open>Two submissions under one id\<close>















section \<open>The running mean of task durations\<close>

text \<open>
  \<open>mean_gap st ds\<close>: how far the average, times the number of completed and failed tasks,
  is from the sum of the durations \<open>ds\<close>.
\<close>

definition mean_gap :: "ThreadPoolStats \<Rightarrow> int list \<Rightarrow> real option" where
  "mean_gap st ds =
     map_option
       (\<lambda>a. \<bar>a * real (completed_tasks st + failed_tasks st) - real_of_int (sum_list ds)\<bar>)
       (average_task_duration_ms st)"

text \<open>The pool's statistics change by \<^verbatim>\<open>updateStats\<close> on the record of the task run.\<close>

lemma worker_execute_stats:
  "function_t t = Some wr \<Longrightarrow>
   stats (worker_execute c w t s) =
     updateStats (info_store (worker_execute c w t s) (info_t t)) (stats s)"
  by (auto simp: exec_defs
      split: option.splits prod.splits call_result.splits thrown.splits if_splits)

lemma worker_execute_times:
  "built_by_submit t \<Longrightarrow>
   start_time (info_store (worker_execute c w t s) (info_t t)) = closure_start c \<and>
   end_time (info_store (worker_execute c w t s) (info_t t)) = worker_end c"
  by (auto simp: exec_defs built_by_submit_def
      split: option.splits prod.splits call_result.splits thrown.splits if_splits)

text \<open>
  One worker runs three tasks. The clock reads 10 ms between start and end of A, the same
  instant throughout B, and 40 ms between start and end of C.
\<close>

definition c8_clk :: "Task \<Rightarrow> run_clock" where
  "c8_clk t =
     (if id_t t = ''A''
      then \<lparr>worker_start = 0, closure_start = 0, closure_end = 10000000, worker_end = 10000000\<rparr>
      else if id_t t = ''B''
      then \<lparr>worker_start = 20000000, closure_start = 20000000, closure_end = 20000000,
            worker_end = 20000000\<rparr>
      else \<lparr>worker_start = 30000000, closure_start = 30000000, closure_end = 70000000,
            worker_end = 70000000\<rparr>)"

definition c8_two :: ThreadPool where
  "c8_two =
     worker_step c8_clk 0 (worker_step c8_clk 0 (worker_step c8_clk 0 (worker_step c8_clk 0
       (snd (submit ''C'' NORMAL (Returns 3) 3
         (snd (submit ''B'' NORMAL (Returns 2) 2
           (snd (submit ''A'' NORMAL (Returns 1) 1 (ThreadPool_new 1 0))))))))))"

definition c8_three :: ThreadPool where
  "c8_three = worker_step c8_clk 0 (worker_step c8_clk 0 c8_two)"

text \<open>
  Claim C8 on the code. After A and B both count as completed and their recorded durations
  are 10 ms and 0 ms, but the average is 10: \<^verbatim>\<open>updateStats\<close> had incremented the counter
  for B and then skipped the average under \<^verbatim>\<open>end_time > start_time\<close>. The product is 20
  against a sum of 10. After C (40 ms) the average is 20, because \<^verbatim>\<open>updateStats\<close> takes the
  sum so far to be the average times the count before: the product is 60 against a sum of
  50. All the numbers are whole, so the code's doubles give the same values.
\<close>

theorem mean_wrong_after_zero_duration:
  "status (info_store c8_two 0) = COMPLETED \<and>
   status (info_store c8_two 1) = COMPLETED \<and>
   duration_ms (info_store c8_two 0) = 10 \<and>
   duration_ms (info_store c8_two 1) = 0 \<and>
   completed_tasks (stats c8_two) + failed_tasks (stats c8_two) = 2 \<and>
   average_task_duration_ms (stats c8_two) = Some 10 \<and>
   mean_gap (stats c8_two) [10, 0] = Some 10 \<and>
   status (info_store c8_three 2) = COMPLETED \<and>
   duration_ms (info_store c8_three 2) = 40 \<and>
   completed_tasks (stats c8_three) + failed_tasks (stats c8_three) = 3 \<and>
   average_task_duration_ms (stats c8_three) = Some 20 \<and>
   mean_gap (stats c8_three) [10, 0, 40] = Some 10"
  by (simp add: c8_three_def c8_two_def c8_clk_def pool_defs ticks_per_ms_def mean_gap_def)

end
